theory Spec2Isabelle
  imports Main
begin

section \<open>Python values and exceptions\<close>

text \<open>
  The development embeds \<^verbatim>\<open>systole/interact/interact.py\<close>: the JSON persistence of
  \<^verbatim>\<open>Editor.save\<close> and \<^verbatim>\<open>Viewer.load_signal\<close>, the constructor of \<^verbatim>\<open>Editor\<close> and the
  two span-selector callbacks \<^verbatim>\<open>Editor.on_remove\<close> and \<^verbatim>\<open>Editor.on_add\<close>.
  An exception of the Python code is a value of \<open>py_error\<close>.
\<close>

datatype py_error = KeyError | IndexError | ValueError | TypeError | AttributeError

text \<open>\<^verbatim>\<open>str.lower()\<close> on the characters \<^verbatim>\<open>A\<close> .. \<^verbatim>\<open>Z\<close>; every other byte is kept.\<close>

definition lower_char :: "char \<Rightarrow> char" where
  "lower_char c =
     (case map_of (zip ''ABCDEFGHIJKLMNOPQRSTUVWXYZ'' ''abcdefghijklmnopqrstuvwxyz'') c of
        Some l \<Rightarrow> l
      | None \<Rightarrow> c)"

definition lower :: "string \<Rightarrow> string" where
  "lower s = map lower_char s"

text \<open>
  A Python \<^verbatim>\<open>dict\<close> keeps its keys in insertion order: \<^verbatim>\<open>d[k] = v\<close> overwrites the value
  of a key that is present, in place, and appends a new key at the end.
  \<^verbatim>\<open>d[k]\<close> raises \<^verbatim>\<open>KeyError\<close> on a missing key.
\<close>

fun dict_set :: "('k \<times> 'v) list \<Rightarrow> 'k \<Rightarrow> 'v \<Rightarrow> ('k \<times> 'v) list" where
  "dict_set [] k v = [(k, v)]"
| "dict_set ((k', v') # kvs) k v =
     (if k' = k then (k, v) # kvs else (k', v') # dict_set kvs k v)"

definition dict_get :: "('k \<times> 'v) list \<Rightarrow> 'k \<Rightarrow> py_error + 'v" where
  "dict_get d k = (case map_of d k of None \<Rightarrow> Inl KeyError | Some v \<Rightarrow> Inr v)"

section \<open>The persisted document\<close>

text \<open>
  One block of the corrected JSON file, as \<^verbatim>\<open>Editor.save\<close> builds it in
  \<^verbatim>\<open>corrected_info\<close>: the keys \<^verbatim>\<open>"valid"\<close>, \<^verbatim>\<open>"corrected_peaks"\<close> and \<^verbatim>\<open>"bad_segments"\<close>
  (a list of integers or \<^verbatim>\<open>null\<close>). The document is the parsed top-level object: the
  blocks by signal-type key, in the order of the file. A file that does not exist is
  \<open>None\<close>.
\<close>

record block =
  valid :: bool
  corrected_peaks :: "int list"
  bad_segments_json :: "int list option"

type_synonym document = "(string \<times> block) list"

section \<open>The editor\<close>

datatype edition = Correction | Rejection

text \<open>
  The attributes of \<^verbatim>\<open>Editor\<close> that the callbacks and \<^verbatim>\<open>save\<close> read and write.
  \<open>edition\<close> is \<^verbatim>\<open>self.edition_.value\<close>, \<open>rejection\<close> is \<^verbatim>\<open>self.rejection_.value\<close>.
  \<open>signal\<close>, \<open>peaks\<close> and \<open>bad_segments\<close> may be \<^verbatim>\<open>None\<close> in the source.
\<close>

record 'a editor =
  signal :: "'a list option"
  peaks :: "bool list option"
  bad_segments :: "int list option"
  edition :: edition
  rejection :: bool
  signal_type :: string

text \<open>\<^verbatim>\<open>np.where(peaks)[0].tolist()\<close>: the ascending indices at which the vector is true.\<close>

definition where_true :: "bool list \<Rightarrow> int list" where
  "where_true ps = map int (filter (\<lambda>i. ps ! i) [0..<length ps])"

text \<open>
  \<^verbatim>\<open>Editor.save\<close>. The argument \<open>file\<close> is the content of \<^verbatim>\<open>self.corrected_json\<close> before
  the call (\<open>None\<close> when the path does not exist, then \<^verbatim>\<open>metadata = {}\<close>), the result is
  the document that \<^verbatim>\<open>json.dump\<close> writes. \<^verbatim>\<open>if self.bad_segments:\<close> is false for \<^verbatim>\<open>None\<close>
  and for the empty list. \<^verbatim>\<open>peaks = None\<close> is written as no peak; what \<^verbatim>\<open>np.where(None)\<close>
  gives depends on the NumPy release, and no property below concerns that state.
\<close>

definition save :: "'a editor \<Rightarrow> document option \<Rightarrow> document" where
  "save ed file =
     (let metadata = (case file of Some d \<Rightarrow> d | None \<Rightarrow> []);
          bad = (case bad_segments ed of
                   Some (x # xs) \<Rightarrow> Some (x # xs)
                 | _ \<Rightarrow> None);
          corrected_info =
            \<lparr> valid = rejection ed,
              corrected_peaks = (case peaks ed of Some ps \<Rightarrow> where_true ps | None \<Rightarrow> []),
              bad_segments_json = bad \<rparr>
      in dict_set metadata (lower (signal_type ed)) corrected_info)"

section \<open>The bytes of the file\<close>

text \<open>
  \<^verbatim>\<open>json.dump\<close> writes a document in a layout fixed by its \<^verbatim>\<open>indent\<close> argument: with
  \<^verbatim>\<open>None\<close> (the default) on one line with the separators \<^verbatim>\<open>", "\<close> and \<^verbatim>\<open>": "\<close>, with a
  number each item on a line of its own, indented by that many spaces per nesting
  level, with the separators \<^verbatim>\<open>","\<close> and \<^verbatim>\<open>": "\<close>. An empty list is \<^verbatim>\<open>[]\<close> in both.
\<close>

definition newline_indent :: "nat option \<Rightarrow> nat \<Rightarrow> string" where
  "newline_indent ind level =
     (case ind of None \<Rightarrow> [] | Some n \<Rightarrow> CHR 0x0A # replicate (n * level) CHR '' '')"

definition item_separator :: "nat option \<Rightarrow> string" where
  "item_separator ind = (case ind of None \<Rightarrow> '', '' | Some n \<Rightarrow> '','')"

fun join :: "string \<Rightarrow> string list \<Rightarrow> string" where
  "join sep [] = []"
| "join sep [x] = x"
| "join sep (x # y # rest) = x @ sep @ join sep (y # rest)"

definition dump_items :: "nat option \<Rightarrow> nat \<Rightarrow> string list \<Rightarrow> string" where
  "dump_items ind level items =
     newline_indent ind (level + 1) @
     join (item_separator ind @ newline_indent ind (level + 1)) items @
     newline_indent ind level"

definition digit_char :: "nat \<Rightarrow> char" where
  "digit_char d = ''0123456789'' ! d"

fun dump_nat :: "nat \<Rightarrow> string" where
  "dump_nat n = (if n < 10 then [digit_char n] else dump_nat (n div 10) @ [digit_char (n mod 10)])"

definition dump_int :: "int \<Rightarrow> string" where
  "dump_int i = (if i < 0 then CHR ''-'' # dump_nat (nat (- i)) else dump_nat (nat i))"

definition dump_list :: "nat option \<Rightarrow> nat \<Rightarrow> int list \<Rightarrow> string" where
  "dump_list ind level xs =
     (if xs = [] then ''[]''
      else ''['' @ dump_items ind level (map dump_int xs) @ '']'')"

definition dump_key :: "string \<Rightarrow> string" where
  "dump_key k = CHR 0x22 # k @ CHR 0x22 # '': ''"

text \<open>
  The bytes of one block that is a value of the top-level object at nesting level
  \<open>level\<close>, with its keys in the order in which \<^verbatim>\<open>Editor.save\<close> inserts them.
\<close>

definition dump_block :: "nat option \<Rightarrow> nat \<Rightarrow> block \<Rightarrow> string" where
  "dump_block ind level b =
     ''{'' @
     dump_items ind level
       [dump_key ''valid'' @ (if valid b then ''true'' else ''false''),
        dump_key ''corrected_peaks'' @ dump_list ind (level + 1) (corrected_peaks b),
        dump_key ''bad_segments'' @
          (case bad_segments_json b of
             None \<Rightarrow> ''null''
           | Some xs \<Rightarrow> dump_list ind (level + 1) xs)] @
     ''}''"

text \<open>
  A corrected JSON file that \<^verbatim>\<open>json.dump\<close> has written: the \<^verbatim>\<open>indent\<close> it was written
  with and the document, which is what \<^verbatim>\<open>json.load\<close> reads back from it. \<open>block_bytes\<close> is
  the text of the block of a key in the file.
\<close>

record json_file =
  indent :: "nat option"
  content :: document

definition block_bytes :: "json_file \<Rightarrow> string \<Rightarrow> string option" where
  "block_bytes f k = map_option (dump_block (indent f) 1) (map_of (content f) k)"

text \<open>
  \<^verbatim>\<open>Editor.save\<close> on the file: \<^verbatim>\<open>json.load\<close> reads the document of the existing file,
  and \<^verbatim>\<open>json.dump(metadata, f, ensure_ascii=False, indent=4)\<close> writes the whole updated
  document again, whatever the layout of the file was.
\<close>

definition save_file :: "'a editor \<Rightarrow> json_file option \<Rightarrow> json_file" where
  "save_file ed file = \<lparr> indent = Some 4, content = save ed (map_option content file) \<rparr>"

section \<open>The viewer\<close>

text \<open>
  The attributes of \<^verbatim>\<open>Viewer\<close> used by the JSON part of \<^verbatim>\<open>load_signal\<close>;
  \<open>v_signal_type\<close> is \<^verbatim>\<open>self.signal_type_.value\<close>.
\<close>

record 'a viewer =
  input_signal :: "'a list option"
  v_corrected_peaks :: "bool list option"
  v_bad_segments :: "int list option"
  v_signal_type :: string

text \<open>
  \<^verbatim>\<open>a[np.array(idx)] = True\<close> on a boolean vector \<open>a\<close>, for a list \<open>idx\<close> of
  Python integers. \<^verbatim>\<open>np.array([])\<close> has dtype \<^verbatim>\<open>float64\<close>, and NumPy refuses an index
  array that is not of integer or boolean type with \<^verbatim>\<open>IndexError\<close>. A negative index
  counts from the end, and an index outside \<open>[-n, n)\<close> is an \<^verbatim>\<open>IndexError\<close>.
\<close>

definition norm_index :: "nat \<Rightarrow> int \<Rightarrow> py_error + nat" where
  "norm_index n i =
     (if 0 \<le> i \<and> i < int n then Inr (nat i)
      else if - int n \<le> i \<and> i < 0 then Inr (nat (int n + i))
      else Inl IndexError)"

fun set_true_at :: "bool list \<Rightarrow> int list \<Rightarrow> py_error + bool list" where
  "set_true_at a [] = Inr a"
| "set_true_at a (i # is) =
     (case norm_index (length a) i of
        Inl e \<Rightarrow> Inl e
      | Inr j \<Rightarrow> set_true_at (a[j := True]) is)"

definition index_assign_true :: "bool list \<Rightarrow> int list \<Rightarrow> py_error + bool list" where
  "index_assign_true a idx = (if idx = [] then Inl IndexError else set_true_at a idx)"

text \<open>
  The JSON part of \<^verbatim>\<open>Viewer.load_signal\<close> (from \<^verbatim>\<open>if self.corrected_json.exists():\<close> to
  \<^verbatim>\<open>f.close()\<close>). The method has set \<^verbatim>\<open>corrected_peaks\<close> and \<^verbatim>\<open>bad_segments\<close> to \<^verbatim>\<open>None\<close>
  before; when the file does not exist they stay \<^verbatim>\<open>None\<close>. There is no
  \<^verbatim>\<open>try\<close> around the two subscripts of \<^verbatim>\<open>json_data\<close>.
\<close>

definition load_signal :: "'a viewer \<Rightarrow> document option \<Rightarrow> py_error + 'a viewer" where
  "load_signal v file =
     (let v0 = v\<lparr> v_corrected_peaks := None, v_bad_segments := None \<rparr> in
      case file of
        None \<Rightarrow> Inr v0
      | Some json_data \<Rightarrow>
          (case dict_get json_data (lower (v_signal_type v)) of
             Inl e \<Rightarrow> Inl e
           | Inr blk \<Rightarrow>
               (case input_signal v of
                  None \<Rightarrow> Inl TypeError
                | Some sig \<Rightarrow>
                    (case index_assign_true (replicate (length sig) False) (corrected_peaks blk) of
                       Inl e \<Rightarrow> Inl e
                     | Inr cp \<Rightarrow>
                         Inr (v0\<lparr> v_bad_segments := bad_segments_json blk,
                                 v_corrected_peaks := Some cp \<rparr>)))))"

section \<open>The constructor of the editor\<close>

text \<open>
  The attribute assignments at the head of \<^verbatim>\<open>Editor.__init__\<close>. The parameters
  \<^verbatim>\<open>sfreq\<close>, \<^verbatim>\<open>corrected_json\<close> and \<^verbatim>\<open>figsize\<close> are stored in attributes that no
  function below reads and are left out. \<^verbatim>\<open>self.bad_segments\<close> is first the empty list
  and then, with a viewer, \<^verbatim>\<open>viewer.bad_segments\<close>; the parameter \<^verbatim>\<open>bad_segments\<close> is
  never read. The toggle \<^verbatim>\<open>edition_\<close> starts on its first option and the checkbox
  \<^verbatim>\<open>rejection_\<close> on \<^verbatim>\<open>True\<close>.
\<close>

definition Editor_init ::
  "'a list option \<Rightarrow> string \<Rightarrow> 'a viewer option \<Rightarrow> bool list option \<Rightarrow> int list option
     \<Rightarrow> 'a editor" where
  "Editor_init sig sig_type viewer corrected_peaks_arg bad_segments_arg =
     (let bs0 = Some [];
          bs1 = (case viewer of Some v \<Rightarrow> v_bad_segments v | None \<Rightarrow> bs0)
      in \<lparr> signal = sig, peaks = corrected_peaks_arg, bad_segments = bs1,
           edition = Correction, rejection = True, signal_type = sig_type \<rparr>)"

section \<open>Normalisation of bad segments\<close>

text \<open>
  Modelled from the spec: \<^verbatim>\<open>norm_bad_segments\<close> is imported from \<^verbatim>\<open>systole.utils\<close>, whose
  source is not among the files of the module at hand. The specification describes it
  as the interval-set component: the normalisation sorts the intervals by start and
  merges, in sorted order, every interval whose start is at most the end of the one
  before it (overlapping or touching) into a single spanning interval; the result is
  sorted by start. An interval is a pair with \<open>start < end\<close>: an interval of zero width
  is a no-op, and an empty interval is dropped, never kept as a degenerate entry.
\<close>

fun merge_sorted :: "int \<times> int \<Rightarrow> (int \<times> int) list \<Rightarrow> (int \<times> int) list" where
  "merge_sorted cur [] = [cur]"
| "merge_sorted cur (nxt # rest) =
     (if fst nxt \<le> snd cur
      then merge_sorted (fst cur, max (snd cur) (snd nxt)) rest
      else cur # merge_sorted nxt rest)"

definition normalize_segments :: "(int \<times> int) list \<Rightarrow> (int \<times> int) list" where
  "normalize_segments segs =
     (case sort_key fst (filter (\<lambda>seg. fst seg < snd seg) segs) of
        [] \<Rightarrow> []
      | s # rest \<Rightarrow> merge_sorted s rest)"

text \<open>
  Modelled from the spec: the carving of one bad interval by a good interval, the part of
  \<^verbatim>\<open>norm_bad_segments\<close> (absent from the sources) that handles \<^verbatim>\<open>good_segments\<close>. An
  interval that the good interval does not overlap is kept, one that it covers is
  deleted, one that straddles it on both sides is split into the left and the right
  remainder, and one that overlaps it on one side is truncated at the boundary.
\<close>

definition carve :: "int \<times> int \<Rightarrow> int \<times> int \<Rightarrow> (int \<times> int) list" where
  "carve good seg =
     (let gs = fst good; ge = snd good; s = fst seg; e = snd seg in
      if ge \<le> s \<or> e \<le> gs then [seg]
      else if gs \<le> s \<and> e \<le> ge then []
      else if s < gs \<and> ge < e then [(s, gs), (ge, e)]
      else if s < gs then [(s, gs)]
      else [(ge, e)])"

text \<open>
  Modelled from the spec: \<^verbatim>\<open>norm_bad_segments(bad_segments, good_segments=None)\<close> of
  \<^verbatim>\<open>systole.utils\<close> (absent from the sources), with the two call shapes of the editor.
  Every good interval carves the bad intervals, then the normalisation runs.
\<close>

definition norm_bad_segments ::
  "(int \<times> int) list \<Rightarrow> (int \<times> int) list option \<Rightarrow> (int \<times> int) list" where
  "norm_bad_segments bad good =
     normalize_segments (case good of
                  None \<Rightarrow> bad
                | Some gs \<Rightarrow> fold (\<lambda>g acc. concat (map (carve g) acc)) gs bad)"

section \<open>The callbacks of the span selectors\<close>

text \<open>
  \<^verbatim>\<open>[(b[i], b[i + 1]) for i in range(0, len(b), 2)]\<close>: a list of odd length raises
  \<^verbatim>\<open>IndexError\<close> at its last element.
\<close>

fun pairs :: "int list \<Rightarrow> py_error + (int \<times> int) list" where
  "pairs [] = Inr []"
| "pairs [x] = Inl IndexError"
| "pairs (x # y # rest) =
     (case pairs rest of Inl err \<Rightarrow> Inl err | Inr ps \<Rightarrow> Inr ((x, y) # ps))"

text \<open>\<^verbatim>\<open>list(np.array(bad_segments).flatten())\<close> on a list of pairs.\<close>

fun flatten :: "(int \<times> int) list \<Rightarrow> int list" where
  "flatten [] = []"
| "flatten ((s, e) # rest) = s # e # flatten rest"

text \<open>
  \<^verbatim>\<open>a[tmin:tmax]\<close> for \<open>0 \<le> tmin\<close> and \<open>0 \<le> tmax\<close>: the slice is clipped to the array,
  and is empty when \<open>tmax \<le> tmin\<close>.
\<close>

definition slice :: "'a list \<Rightarrow> nat \<Rightarrow> nat \<Rightarrow> 'a list" where
  "slice xs tmin tmax = take (tmax - tmin) (drop tmin xs)"

text \<open>\<^verbatim>\<open>a[tmin:tmax] = False\<close> on a boolean vector.\<close>

definition clear_slice :: "bool list \<Rightarrow> nat \<Rightarrow> nat \<Rightarrow> bool list" where
  "clear_slice a tmin tmax =
     map (\<lambda>i. if tmin \<le> i \<and> i < tmax then False else a ! i) [0..<length a]"

text \<open>
  A sample of the signal is a floating-point number: a number of a linear order, or
  NaN. \<^verbatim>\<open>Viewer.load_signal\<close> refuses a signal only when all of its samples are NaN, so a
  signal may hold some. Every comparison with NaN is false.
\<close>

datatype 'a sample = NaN | Num 'a

fun sample_le :: "'a::linorder sample \<Rightarrow> 'a sample \<Rightarrow> bool" where
  "sample_le (Num a) (Num b) = (a \<le> b)"
| "sample_le _ _ = False"

text \<open>
  \<^verbatim>\<open>np.argmax\<close> on a float array: \<^verbatim>\<open>ValueError\<close> (here \<open>None\<close>) on an empty sequence. The
  scan starts with the first element as the greatest so far and moves to an element
  \<open>x\<close> when \<open>x \<le> best\<close> is false; NaN counts as maximal, and the scan stops at the
  first NaN. Without NaN the result is the first index of the greatest element.
\<close>

fun argmax_from :: "'a::linorder sample \<Rightarrow> nat \<Rightarrow> nat \<Rightarrow> 'a sample list \<Rightarrow> nat" where
  "argmax_from best bi i [] = bi"
| "argmax_from best bi i (x # xs) =
     (if best = NaN then bi
      else if \<not> sample_le x best then argmax_from x i (Suc i) xs
      else argmax_from best bi (Suc i) xs)"

definition argmax :: "'a::linorder sample list \<Rightarrow> nat option" where
  "argmax xs = (case xs of [] \<Rightarrow> None | x # rest \<Rightarrow> Some (argmax_from x 0 1 rest))"

text \<open>
  \<^verbatim>\<open>Editor.on_remove\<close> and \<^verbatim>\<open>Editor.on_add\<close>. The arguments \<open>tmin\<close> and \<open>tmax\<close> are the two
  sample indices that \<^verbatim>\<open>np.searchsorted(self.x_vec, (xmin, xmax))\<close> returns, so they are
  not negative. The result is the editor after the call together with the exception
  that ended it, if any: the source mutates \<^verbatim>\<open>self\<close>, and a mutation made before an
  exception stays. The redrawing (\<^verbatim>\<open>plot_signals\<close>) and the \<^verbatim>\<open>print\<close> are not modelled.

  In \<^verbatim>\<open>on_remove\<close>, \<^verbatim>\<open>self.bad_segments.append\<close> raises \<^verbatim>\<open>AttributeError\<close> on \<^verbatim>\<open>None\<close>; both
  indices are appended before the pairs are built.
\<close>

definition on_remove :: "'a editor \<Rightarrow> nat \<Rightarrow> nat \<Rightarrow> 'a editor \<times> py_error option" where
  "on_remove ed tmin tmax =
     (case edition ed of
        Correction \<Rightarrow>
          (case peaks ed of
             None \<Rightarrow> (ed, Some TypeError)
           | Some ps \<Rightarrow> (ed\<lparr> peaks := Some (clear_slice ps tmin tmax) \<rparr>, None))
      | Rejection \<Rightarrow>
          (case bad_segments ed of
             None \<Rightarrow> (ed, Some AttributeError)
           | Some bs \<Rightarrow>
               (let bs' = bs @ [int tmin, int tmax] in
                case pairs bs' of
                  Inl err \<Rightarrow> (ed\<lparr> bad_segments := Some bs' \<rparr>, Some err)
                | Inr segs \<Rightarrow>
                    (ed\<lparr> bad_segments := Some (flatten (norm_bad_segments segs None)) \<rparr>,
                     None))))"

text \<open>
  In \<^verbatim>\<open>on_add\<close>, the index expression \<^verbatim>\<open>tmin + np.argmax(self.signal[tmin:tmax])\<close> is
  evaluated before the store into \<^verbatim>\<open>self.peaks\<close>; \<^verbatim>\<open>len(self.bad_segments)\<close> raises
  \<^verbatim>\<open>TypeError\<close> on \<^verbatim>\<open>None\<close>.
\<close>

definition on_add ::
  "'a::linorder sample editor \<Rightarrow> nat \<Rightarrow> nat \<Rightarrow> 'a sample editor \<times> py_error option" where
  "on_add ed tmin tmax =
     (case edition ed of
        Correction \<Rightarrow>
          (case signal ed of
             None \<Rightarrow> (ed, Some TypeError)
           | Some sig \<Rightarrow>
               (case argmax (slice sig tmin tmax) of
                  None \<Rightarrow> (ed, Some ValueError)
                | Some k \<Rightarrow>
                    (case peaks ed of
                       None \<Rightarrow> (ed, Some TypeError)
                     | Some ps \<Rightarrow>
                         if tmin + k < length ps
                         then (ed\<lparr> peaks := Some (ps[tmin + k := True]) \<rparr>, None)
                         else (ed, Some IndexError))))
      | Rejection \<Rightarrow>
          (case bad_segments ed of
             None \<Rightarrow> (ed, Some TypeError)
           | Some bs \<Rightarrow>
               (case pairs bs of
                  Inl err \<Rightarrow> (ed, Some err)
                | Inr segs \<Rightarrow>
                    (ed\<lparr> bad_segments :=
                          Some (flatten (norm_bad_segments segs (Some [(int tmin, int tmax)]))) \<rparr>,
                     None))))"

section \<open>Predicates of the properties\<close>

text \<open>A sample index lies in one of the half-open intervals.\<close>

fun covers :: "(int \<times> int) list \<Rightarrow> int \<Rightarrow> bool" where
  "covers [] i = False"
| "covers (seg # rest) i = ((fst seg \<le> i \<and> i < snd seg) \<or> covers rest i)"

text \<open>
  The intervals are sorted by start and each one ends strictly before the next one
  starts; \<open>normalized_flat\<close> is the same on the flat list of the editor.
\<close>

fun separated :: "(int \<times> int) list \<Rightarrow> bool" where
  "separated (a # b # rest) = (fst a \<le> fst b \<and> snd a < fst b \<and> separated (b # rest))"
| "separated _ = True"

fun normalized_flat :: "int list \<Rightarrow> bool" where
  "normalized_flat (s1 # e1 # s2 # e2 # rest) =
     (s1 \<le> s2 \<and> e1 < s2 \<and> normalized_flat (s2 # e2 # rest))"
| "normalized_flat _ = True"

text \<open>
  The sample at index \<open>k\<close> lies in the range \<open>[tmin,tmax)\<close> of the signal, and every
  sample of the range is at most as great.
\<close>

definition strongest_in :: "'a::linorder sample list \<Rightarrow> nat \<Rightarrow> nat \<Rightarrow> nat \<Rightarrow> bool" where
  "strongest_in sig tmin tmax k =
     (tmin \<le> k \<and> k < tmax \<and> k < length sig \<and>
      list_all (\<lambda>x. sample_le x (sig ! k)) (slice sig tmin tmax))"

section \<open>Example states\<close>

definition ed_ppg :: "int sample editor" where
  "ed_ppg = \<lparr> signal = Some [Num 1, Num 5, Num 2, Num 7], peaks = Some [False, False, False, True],
      bad_segments = Some [2, 3], edition = Correction, rejection = True,
      signal_type = ''PPG'' \<rparr>"

definition ed_no_peaks :: "int sample editor" where
  "ed_no_peaks = \<lparr> signal = Some [Num 1, Num 5, Num 2], peaks = Some [False, False, False],
      bad_segments = Some [], edition = Correction, rejection = True,
      signal_type = ''ECG'' \<rparr>"

definition ecg_block :: block where
  "ecg_block = \<lparr> valid = True, corrected_peaks = [0, 2], bad_segments_json = None \<rparr>"

definition viewer_of :: "string \<Rightarrow> int list \<Rightarrow> int viewer" where
  "viewer_of t sig = \<lparr> input_signal = Some sig, v_corrected_peaks = None,
      v_bad_segments = None, v_signal_type = t \<rparr>"

definition ed_rejecting :: "int list \<Rightarrow> int sample editor" where
  "ed_rejecting bs = \<lparr> signal = Some [Num 1, Num 5, Num 2, Num 7], peaks = Some [False, True, False, True],
      bad_segments = Some bs, edition = Rejection, rejection = True,
      signal_type = ''ECG'' \<rparr>"

definition ed_one_peak :: "int sample editor" where
  "ed_one_peak = \<lparr> signal = Some [Num 3], peaks = Some [True], bad_segments = Some [],
      edition = Correction, rejection = True, signal_type = ''ECG'' \<rparr>"

definition ed_nan :: "int sample editor" where
  "ed_nan = \<lparr> signal = Some [Num 1, NaN, Num 5], peaks = Some [False, False, False],
      bad_segments = Some [], edition = Correction, rejection = True,
      signal_type = ''ECG'' \<rparr>"

text \<open>
  The editor that \<^verbatim>\<open>Viewer.plot_signal\<close> builds for a recording without a corrected
  file, with the toggle moved to \<^verbatim>\<open>Rejection\<close>.
\<close>

definition ed_from_viewer :: "int editor" where
  "ed_from_viewer =
     (Editor_init (Some [1, 5, 2, 7]) ''ECG'' (Some (viewer_of ''ECG'' [1, 5, 2, 7])) None None)
       \<lparr> edition := Rejection \<rparr>"

text \<open>
  The same document in a file written on one line (\<^verbatim>\<open>json.dump\<close> without \<^verbatim>\<open>indent\<close>) and
  in a file written as \<^verbatim>\<open>Editor.save\<close> writes it.
\<close>

definition one_line_file :: json_file where
  "one_line_file = \<lparr> indent = None, content = [(''ecg'', ecg_block)] \<rparr>"

definition indented_file :: json_file where
  "indented_file = \<lparr> indent = Some 4, content = [(''ecg'', ecg_block)] \<rparr>"

section \<open>Persistence\<close>

lemma map_of_dict_set: "map_of (dict_set d k v) = (map_of d)(k \<mapsto> v)"
  by (induction d k v rule: dict_set.induct) (auto simp: fun_eq_iff)

lemma filter_dict_set:
  "filter (\<lambda>kv. fst kv \<noteq> k) (dict_set d k v) = filter (\<lambda>kv. fst kv \<noteq> k) d"
  by (induction d k v rule: dict_set.induct) auto

lemma save_lookup:
  "map_of (save ed old) (lower (signal_type ed)) =
     Some \<lparr> valid = rejection ed,
            corrected_peaks = (case peaks ed of Some ps \<Rightarrow> where_true ps | None \<Rightarrow> []),
            bad_segments_json =
              (case bad_segments ed of Some (x # xs) \<Rightarrow> Some (x # xs) | _ \<Rightarrow> None) \<rparr>"
  by (simp add: save_def map_of_dict_set Let_def)

text \<open>
  Setting the indices of a list of in-range naturals makes true exactly those entries.
\<close>

lemma set_true_at_nat:
  "\<forall>i \<in> set idx. i < length a \<Longrightarrow>
   set_true_at a (map int idx) = Inr (map (\<lambda>j. a ! j \<or> j \<in> set idx) [0..<length a])"
proof (induction idx arbitrary: a)
  case Nil
  then show ?case by (simp add: map_nth)
next
  case (Cons i idx)
  have "norm_index (length a) (int i) = Inr i"
    using Cons.prems by (simp add: norm_index_def)
  moreover have "set_true_at (a[i := True]) (map int idx) =
      Inr (map (\<lambda>j. (a[i := True]) ! j \<or> j \<in> set idx) [0..<length a])"
    using Cons.IH[of "a[i := True]"] Cons.prems by simp
  ultimately show ?case
    using Cons.prems by (auto simp: nth_list_update)
qed

lemma where_true_roundtrip:
  "set_true_at (replicate (length ps) False) (where_true ps) = Inr ps"
proof -
  let ?idx = "filter (\<lambda>i. ps ! i) [0..<length ps]"
  let ?z = "replicate (length ps) False"
  have "set_true_at ?z (map int ?idx) =
      Inr (map (\<lambda>j. ?z ! j \<or> j \<in> set ?idx) [0..<length ?z])"
    by (rule set_true_at_nat) simp
  also have "map (\<lambda>j. ?z ! j \<or> j \<in> set ?idx) [0..<length ?z] = ps"
    by (auto intro!: nth_equalityI)
  finally show ?thesis by (simp add: where_true_def)
qed

lemma where_true_empty_iff: "where_true ps = [] \<longleftrightarrow> True \<notin> set ps"
  by (auto simp: where_true_def filter_empty_conv in_set_conv_nth)

text \<open>
  With at least one peak, and a viewer whose signal has the length of the peaks vector,
  loading what \<^verbatim>\<open>save\<close> wrote gives back the peaks vector and the bad segments
  (\<^verbatim>\<open>None\<close> for an empty collection).
\<close>

lemma save_load_roundtrip:
  assumes "peaks ed = Some ps" and "True \<in> set ps" and "input_signal v = Some sig"
    and "length sig = length ps" and "v_signal_type v = signal_type ed"
  shows "load_signal v (Some (save ed old)) =
    Inr (v\<lparr> v_corrected_peaks := Some ps,
            v_bad_segments :=
              (case bad_segments ed of Some (x # xs) \<Rightarrow> Some (x # xs) | _ \<Rightarrow> None) \<rparr>)"
proof -
  have ne: "where_true ps \<noteq> []"
    using assms(2) by (simp add: where_true_empty_iff)
  have "index_assign_true (replicate (length sig) False) (where_true ps) = Inr ps"
    using ne assms(4) where_true_roundtrip[of ps] by (simp add: index_assign_true_def)
  then show ?thesis
    using assms save_lookup[of ed old] by (simp add: load_signal_def dict_get_def)
qed

text \<open>Without any peak the written list is empty and the load raises.\<close>

lemma save_load_no_peaks:
  assumes "peaks ed = Some ps" and "True \<notin> set ps" and "input_signal v = Some sig"
    and "v_signal_type v = signal_type ed"
  shows "load_signal v (Some (save ed old)) = Inl IndexError"
proof -
  have "where_true ps = []"
    using assms(2) by (simp add: where_true_empty_iff)
  then show ?thesis
    using assms save_lookup[of ed old]
    by (simp add: load_signal_def dict_get_def index_assign_true_def)
qed

text \<open>
  C1. Saving a state and loading the same tag from the written document should give
  back the peak indices and the bad segments. For a state with no peak at all the
  document holds \<^verbatim>\<open>"corrected_peaks": []\<close>, \<^verbatim>\<open>np.array([])\<close> is a float array, and the
  load ends in \<^verbatim>\<open>IndexError\<close> instead of returning the empty set of peaks.
\<close>

theorem save_load_without_peaks_raises:
  "load_signal (viewer_of ''ECG'' [1, 5, 2]) (Some (save ed_no_peaks None)) = Inl IndexError"
  by (simp add: load_signal_def viewer_of_def dict_get_def lower_def lower_char_def save_def
      ed_no_peaks_def where_true_def index_assign_true_def)

text \<open>
  C2. On an existing document, \<^verbatim>\<open>save\<close> writes the block of the lower-cased tag and
  leaves the content of every other block as it was: each other key maps to the same
  block, and the sequence of the other entries (keys, blocks and their order) is the
  same. The whole file is written again with \<^verbatim>\<open>indent=4\<close>: the bytes of another block
  are the same when the file was in that layout, and change when it was not.
\<close>

theorem save_frame:
  "(\<forall>k. k \<noteq> lower (signal_type ed) \<longrightarrow>
       map_of (content (save_file ed (Some f))) k = map_of (content f) k) \<and>
   filter (\<lambda>kv. fst kv \<noteq> lower (signal_type ed)) (content (save_file ed (Some f))) =
   filter (\<lambda>kv. fst kv \<noteq> lower (signal_type ed)) (content f) \<and>
   map_of (content (save_file ed (Some f))) (lower (signal_type ed)) =
     Some \<lparr> valid = rejection ed,
            corrected_peaks = (case peaks ed of Some ps \<Rightarrow> where_true ps | None \<Rightarrow> []),
            bad_segments_json =
              (case bad_segments ed of Some (x # xs) \<Rightarrow> Some (x # xs) | _ \<Rightarrow> None) \<rparr> \<and>
   (indent f = Some 4 \<longrightarrow>
      (\<forall>k. k \<noteq> lower (signal_type ed) \<longrightarrow>
          block_bytes (save_file ed (Some f)) k = block_bytes f k))"
  by (simp add: save_file_def block_bytes_def save_def map_of_dict_set filter_dict_set Let_def)

theorem save_frame_witness:
  "''ecg'' \<noteq> lower (signal_type ed_ppg) \<and> indent indented_file = Some 4 \<and>
   map_of (content (save_file ed_ppg (Some indented_file))) ''ecg'' = Some ecg_block \<and>
   map_of (content (save_file ed_ppg (Some indented_file))) ''ppg'' =
     Some \<lparr> valid = True, corrected_peaks = [3], bad_segments_json = Some [2, 3] \<rparr> \<and>
   block_bytes (save_file ed_ppg (Some indented_file)) ''ecg'' = block_bytes indented_file ''ecg'' \<and>
   block_bytes indented_file ''ecg'' \<noteq> None"
proof -
  note frame = save_frame [of ed_ppg indented_file]
  have ne: "''ecg'' \<noteq> lower (signal_type ed_ppg)"
    by (simp add: ed_ppg_def lower_def lower_char_def)
  have ind: "indent indented_file = Some 4"
    by (simp add: indented_file_def)
  have "map_of (content (save_file ed_ppg (Some indented_file))) ''ecg'' =
      map_of (content indented_file) ''ecg''"
    using frame ne by blast
  then have ecg: "map_of (content (save_file ed_ppg (Some indented_file))) ''ecg'' = Some ecg_block"
    by (simp add: indented_file_def)
  have key: "lower (signal_type ed_ppg) = ''ppg''"
    by (simp add: ed_ppg_def lower_def lower_char_def)
  have idx: "where_true [False, False, False, True] = [3]"
    by (simp add: where_true_def upt_rec)
  have ppg: "map_of (content (save_file ed_ppg (Some indented_file))) ''ppg'' =
      Some \<lparr> valid = True, corrected_peaks = [3], bad_segments_json = Some [2, 3] \<rparr>"
    using frame key idx by (simp add: ed_ppg_def)
  have bytes: "block_bytes (save_file ed_ppg (Some indented_file)) ''ecg'' =
      block_bytes indented_file ''ecg''"
    using frame ne ind by blast
  have "block_bytes indented_file ''ecg'' \<noteq> None"
    by (simp add: block_bytes_def indented_file_def)
  then show ?thesis using ne ind ecg ppg bytes by blast
qed

theorem save_rewrites_bytes_counterexample:
  "map_of (content one_line_file) ''ecg'' = Some ecg_block \<and>
   block_bytes (save_file ed_ppg (Some one_line_file)) ''ecg'' \<noteq>
   block_bytes one_line_file ''ecg''"
  by (simp add: one_line_file_def save_file_def save_def ed_ppg_def lower_def lower_char_def
      block_bytes_def dump_block_def dump_items_def newline_indent_def dump_key_def
      ecg_block_def)

lemma load_signal_no_file:
  "load_signal v None = Inr (v\<lparr> v_corrected_peaks := None, v_bad_segments := None \<rparr>)"
  by (simp add: load_signal_def)

lemma load_signal_missing_block:
  "map_of doc (lower (v_signal_type v)) = None \<Longrightarrow> load_signal v (Some doc) = Inl KeyError"
  by (simp add: load_signal_def dict_get_def)

text \<open>
  C3. A document without a block for the requested tag should load as "no prior
  annotation", as a missing file does. The subscript \<^verbatim>\<open>json_data["resp"]\<close> raises
  \<^verbatim>\<open>KeyError\<close> instead, and nothing catches it.
\<close>

theorem load_signal_absent_block_raises:
  "load_signal (viewer_of ''RESP'' [1, 5, 2, 7]) (Some [(''ecg'', ecg_block)]) = Inl KeyError"
  by (simp add: load_signal_def viewer_of_def dict_get_def lower_def lower_char_def)

section \<open>Bad segments\<close>

lemma pairs_flatten: "pairs (flatten segs) = Inr segs"
  by (induction segs rule: flatten.induct) auto

lemma flatten_append: "flatten (xs @ ys) = flatten xs @ flatten ys"
  by (induction xs rule: flatten.induct) auto

lemma pairs_even: "even (length bs) \<Longrightarrow> \<exists>segs. pairs bs = Inr segs \<and> flatten segs = bs"
  by (induction bs rule: pairs.induct) auto

lemma normalized_flat_flatten: "normalized_flat (flatten segs) = separated segs"
  by (induction segs rule: separated.induct) auto

lemma covers_iff: "covers segs i \<longleftrightarrow> (\<exists>seg \<in> set segs. fst seg \<le> i \<and> i < snd seg)"
  by (induction segs) auto

lemma merge_sorted_head: "\<exists>e r. merge_sorted cur rest = (fst cur, e) # r"
proof (induction rest arbitrary: cur)
  case Nil
  show ?case by (cases cur) simp
next
  case (Cons nxt rest)
  show ?case
  proof (cases "fst nxt \<le> snd cur")
    case True
    then show ?thesis using Cons.IH[of "(fst cur, max (snd cur) (snd nxt))"] by simp
  next
    case False
    then show ?thesis by (cases cur) simp
  qed
qed

lemma separated_merge_sorted:
  "sorted (map fst (cur # rest)) \<Longrightarrow> separated (merge_sorted cur rest)"
proof (induction rest arbitrary: cur)
  case Nil
  show ?case by simp
next
  case (Cons nxt rest)
  show ?case
  proof (cases "fst nxt \<le> snd cur")
    case True
    have "sorted (map fst ((fst cur, max (snd cur) (snd nxt)) # rest))"
      using Cons.prems by auto
    then show ?thesis using True Cons.IH by simp
  next
    case False
    obtain e r where h: "merge_sorted nxt rest = (fst nxt, e) # r"
      using merge_sorted_head by blast
    have "separated (merge_sorted nxt rest)"
      using Cons.prems Cons.IH[of nxt] by simp
    then show ?thesis using False h Cons.prems by simp
  qed
qed

lemma covers_merge_sorted:
  "sorted (map fst (cur # rest)) \<Longrightarrow> covers (merge_sorted cur rest) i = covers (cur # rest) i"
proof (induction rest arbitrary: cur)
  case Nil
  show ?case by simp
next
  case (Cons nxt rest)
  show ?case
  proof (cases "fst nxt \<le> snd cur")
    case True
    have s: "sorted (map fst ((fst cur, max (snd cur) (snd nxt)) # rest))"
      using Cons.prems by auto
    have le: "fst cur \<le> fst nxt" using Cons.prems by simp
    show ?thesis using True le Cons.IH[OF s] by auto
  next
    case False
    then show ?thesis using Cons.prems Cons.IH[of nxt] by simp
  qed
qed

lemma spans_merge_sorted:
  "sorted (map fst (cur # rest)) \<Longrightarrow> seg \<in> set (cur # rest) \<Longrightarrow>
   \<exists>r \<in> set (merge_sorted cur rest). fst r \<le> fst seg \<and> snd seg \<le> snd r"
proof (induction rest arbitrary: cur seg)
  case Nil
  then show ?case by simp
next
  case (Cons nxt rest)
  show ?case
  proof (cases "fst nxt \<le> snd cur")
    case True
    let ?c = "(fst cur, max (snd cur) (snd nxt))"
    have s: "sorted (map fst (?c # rest))"
      using Cons.prems by auto
    have le: "fst cur \<le> fst nxt" using Cons.prems by simp
    have c: "\<exists>r \<in> set (merge_sorted ?c rest). fst r \<le> fst ?c \<and> snd ?c \<le> snd r"
      using Cons.IH[OF s, of ?c] by simp
    show ?thesis
    proof (cases "seg \<in> set rest")
      case True
      then show ?thesis using \<open>fst nxt \<le> snd cur\<close> Cons.IH[OF s, of seg] by simp
    next
      case False
      then have "seg = cur \<or> seg = nxt" using Cons.prems by auto
      moreover obtain r where r: "r \<in> set (merge_sorted ?c rest)"
          "fst r \<le> fst cur" "max (snd cur) (snd nxt) \<le> snd r"
        using c by auto
      ultimately have "fst r \<le> fst seg \<and> snd seg \<le> snd r"
        using le by auto
      then show ?thesis using r(1) \<open>fst nxt \<le> snd cur\<close> by auto
    qed
  next
    case False
    show ?thesis
    proof (cases "seg = cur")
      case True
      then show ?thesis using False by simp
    next
      case ne: False
      then have "seg \<in> set (nxt # rest)" using Cons.prems by auto
      moreover have "sorted (map fst (nxt # rest))" using Cons.prems by simp
      ultimately show ?thesis using False Cons.IH[of nxt seg] by simp
    qed
  qed
qed

lemma separated_normalize: "separated (normalize_segments segs)"
proof (cases "sort_key fst (filter (\<lambda>seg. fst seg < snd seg) segs)")
  case Nil
  then show ?thesis by (simp add: normalize_segments_def)
next
  case (Cons s rest)
  have "sorted (map fst (sort_key fst (filter (\<lambda>seg. fst seg < snd seg) segs)))"
    by (rule sorted_sort_key)
  then show ?thesis
    using Cons separated_merge_sorted[of s rest] by (simp add: normalize_segments_def)
qed

lemma covers_normalize: "covers (normalize_segments segs) i = covers segs i"
proof -
  let ?k = "filter (\<lambda>seg. fst seg < snd seg) segs"
  have keep: "covers ?k i = covers segs i"
    by (induction segs) auto
  show ?thesis
  proof (cases "sort_key fst ?k")
    case Nil
    then have "?k = []" by (metis length_0_conv length_sort)
    then show ?thesis using keep Nil by (simp add: normalize_segments_def)
  next
    case (Cons s rest)
    have "sorted (map fst (sort_key fst ?k))" by (rule sorted_sort_key)
    then have "covers (merge_sorted s rest) i = covers (s # rest) i"
      using Cons covers_merge_sorted[of s rest i] by simp
    also have "\<dots> = covers (sort_key fst ?k) i" using Cons by simp
    also have "\<dots> = covers ?k i" by (simp add: covers_iff)
    finally show ?thesis using Cons keep by (simp add: normalize_segments_def)
  qed
qed

lemma spans_normalize:
  assumes "seg \<in> set segs" and "fst seg < snd seg"
  shows "\<exists>r \<in> set (normalize_segments segs). fst r \<le> fst seg \<and> snd seg \<le> snd r"
proof -
  let ?k = "filter (\<lambda>seg. fst seg < snd seg) segs"
  have mem: "seg \<in> set ?k" using assms by simp
  show ?thesis
  proof (cases "sort_key fst ?k")
    case Nil
    then have "?k = []" by (metis length_0_conv length_sort)
    then show ?thesis using mem by simp
  next
    case (Cons s rest)
    have "sorted (map fst (s # rest))" using sorted_sort_key[of fst ?k] Cons by simp
    moreover have "seg \<in> set (s # rest)" using mem Cons by (metis set_sort)
    ultimately show ?thesis
      using Cons spans_merge_sorted[of s rest seg] by (simp add: normalize_segments_def)
  qed
qed

text \<open>Merging keeps every interval non-empty, and changes nothing on separated intervals.\<close>

lemma nonempty_merge_sorted:
  "\<forall>seg \<in> set (cur # rest). fst seg < snd seg \<Longrightarrow>
   \<forall>r \<in> set (merge_sorted cur rest). fst r < snd r"
proof (induction rest arbitrary: cur)
  case Nil
  then show ?case by simp
next
  case (Cons nxt rest)
  have cur: "fst cur < snd cur" and nxt: "fst nxt < snd nxt"
    and rest: "\<forall>seg \<in> set rest. fst seg < snd seg"
    using Cons.prems by simp_all
  show ?case
  proof (cases "fst nxt \<le> snd cur")
    case True
    let ?c = "(fst cur, max (snd cur) (snd nxt))"
    have eq: "merge_sorted cur (nxt # rest) = merge_sorted ?c rest"
      using True by simp
    have "fst ?c < snd ?c" using cur by simp
    then have "\<forall>seg \<in> set (?c # rest). fst seg < snd seg"
      using rest by simp
    then have "\<forall>r \<in> set (merge_sorted ?c rest). fst r < snd r"
      by (rule Cons.IH)
    then show ?thesis unfolding eq .
  next
    case False
    have eq: "merge_sorted cur (nxt # rest) = cur # merge_sorted nxt rest"
      using False by simp
    have "\<forall>seg \<in> set (nxt # rest). fst seg < snd seg"
      using nxt rest by simp
    then have "\<forall>r \<in> set (merge_sorted nxt rest). fst r < snd r"
      by (rule Cons.IH)
    then show ?thesis unfolding eq using cur by simp
  qed
qed

lemma nonempty_normalize: "r \<in> set (normalize_segments segs) \<Longrightarrow> fst r < snd r"
proof -
  let ?k = "filter (\<lambda>seg. fst seg < snd seg) segs"
  assume r: "r \<in> set (normalize_segments segs)"
  show ?thesis
  proof (cases "sort_key fst ?k")
    case Nil
    then show ?thesis using r by (simp add: normalize_segments_def)
  next
    case (Cons s rest)
    have "set (s # rest) = set ?k" using Cons by (metis set_sort)
    then have "\<forall>seg \<in> set (s # rest). fst seg < snd seg" by auto
    then have "\<forall>r \<in> set (merge_sorted s rest). fst r < snd r"
      by (rule nonempty_merge_sorted)
    then show ?thesis using r Cons by (simp add: normalize_segments_def)
  qed
qed

lemma merge_sorted_separated_id: "separated (cur # rest) \<Longrightarrow> merge_sorted cur rest = cur # rest"
  by (induction rest arbitrary: cur) auto


lemma covers_append: "covers (xs @ ys) i \<longleftrightarrow> covers xs i \<or> covers ys i"
  by (induction xs) auto


lemma on_remove_rejection:
  assumes "edition ed = Rejection" and "bad_segments ed = Some (flatten segs)"
  shows "on_remove ed tmin tmax =
    (ed\<lparr> bad_segments :=
          Some (flatten (normalize_segments (segs @ [(int tmin, int tmax)]))) \<rparr>, None)"
proof -
  have "pairs (flatten segs @ [int tmin, int tmax]) = Inr (segs @ [(int tmin, int tmax)])"
    using pairs_flatten[of "segs @ [(int tmin, int tmax)]"] by (simp add: flatten_append)
  then show ?thesis
    using assms by (simp add: on_remove_def norm_bad_segments_def)
qed

lemma on_add_rejection:
  assumes "edition ed = Rejection" and "bad_segments ed = Some (flatten segs)"
  shows "on_add ed tmin tmax =
    (ed\<lparr> bad_segments :=
          Some (flatten (normalize_segments
                  (concat (map (carve (int tmin, int tmax)) segs)))) \<rparr>, None)"
  using assms by (simp add: on_add_def norm_bad_segments_def pairs_flatten)

lemma on_remove_twice_example:
  assumes "edition ed = Rejection" and "bad_segments ed = Some []"
  shows "on_remove (fst (on_remove ed 10 20)) 15 25 = (ed\<lparr> bad_segments := Some [10, 25] \<rparr>, None)"
proof -
  have 1: "on_remove ed 10 20 = (ed\<lparr> bad_segments := Some [10, 20] \<rparr>, None)"
    using on_remove_rejection[of ed "[]" 10 20] assms by (simp add: normalize_segments_def)
  have 2: "on_remove (ed\<lparr> bad_segments := Some [10, 20] \<rparr>) 15 25
       = (ed\<lparr> bad_segments := Some [10, 25] \<rparr>, None)"
    using on_remove_rejection[of "ed\<lparr> bad_segments := Some [10, 20] \<rparr>" "[(10, 20)]" 15 25] assms
    by (simp add: normalize_segments_def)
  show ?thesis using 1 2 by simp
qed

lemma separated_Cons:
  "separated (a # rest) \<Longrightarrow> r \<in> set rest \<Longrightarrow> fst a \<le> fst r \<and> snd a < fst r"
proof (induction rest arbitrary: a)
  case Nil
  then show ?case by simp
next
  case (Cons b rest)
  show ?case
  proof (cases "r = b")
    case True
    then show ?thesis using Cons.prems by simp
  next
    case False
    then have "r \<in> set rest" using Cons.prems by simp
    moreover have "separated (b # rest)" using Cons.prems by simp
    ultimately have "fst b \<le> fst r \<and> snd b < fst r" using Cons.IH by blast
    then show ?thesis using Cons.prems(1) by (cases rest) auto
  qed
qed

lemma separated_tail: "separated (a # rest) \<Longrightarrow> separated rest"
  by (cases rest) auto

lemma separated_pairwise:
  "separated segs \<Longrightarrow> r1 \<in> set segs \<Longrightarrow> r2 \<in> set segs \<Longrightarrow>
   r1 = r2 \<or> snd r1 < fst r2 \<or> snd r2 < fst r1"
proof (induction segs)
  case Nil
  then show ?case by simp
next
  case (Cons a rest)
  have tl: "separated rest" using Cons.prems(1) by (rule separated_tail)
  show ?case
  proof (cases "r1 = a")
    case r1: True
    show ?thesis
    proof (cases "r2 = a")
      case True
      then show ?thesis using r1 by simp
    next
      case False
      then have "r2 \<in> set rest" using Cons.prems by simp
      then show ?thesis using separated_Cons[OF Cons.prems(1)] r1 by blast
    qed
  next
    case n1: False
    then have m1: "r1 \<in> set rest" using Cons.prems by simp
    show ?thesis
    proof (cases "r2 = a")
      case True
      then show ?thesis using separated_Cons[OF Cons.prems(1) m1] by blast
    next
      case False
      then have "r2 \<in> set rest" using Cons.prems by simp
      then show ?thesis using Cons.IH[OF tl m1] by blast
    qed
  qed
qed

lemma separated_sorted: "separated segs \<Longrightarrow> sorted (map fst segs)"
proof (induction segs)
  case Nil
  then show ?case by simp
next
  case (Cons a rest)
  have "separated rest" using Cons.prems by (rule separated_tail)
  then have "sorted (map fst rest)" by (rule Cons.IH)
  moreover have "\<forall>r \<in> set rest. fst a \<le> fst r"
    using separated_Cons[OF Cons.prems] by blast
  ultimately show ?case by simp
qed

text \<open>The normalisation changes nothing on separated, non-empty intervals.\<close>

lemma normalize_separated_id:
  assumes "separated segs" and "\<forall>seg \<in> set segs. fst seg < snd seg"
  shows "normalize_segments segs = segs"
proof -
  have k: "filter (\<lambda>seg. fst seg < snd seg) segs = segs"
    using assms(2) by (simp add: filter_id_conv)
  have "sort_key fst segs = segs"
    using separated_sorted[OF assms(1)] by (rule sort_key_id_if_sorted)
  then show ?thesis
    using k assms(1) by (cases segs) (simp_all add: normalize_segments_def merge_sorted_separated_id)
qed

lemma normalize_joins:
  assumes "a \<in> set segs" and "b \<in> set segs" and "fst a < snd a" and "fst b < snd b"
    and "fst a \<le> fst b" and "fst b \<le> snd a"
  shows "\<exists>r \<in> set (normalize_segments segs).
           fst r \<le> fst a \<and> snd a \<le> snd r \<and> snd b \<le> snd r"
proof -
  obtain ra where ra: "ra \<in> set (normalize_segments segs)" "fst ra \<le> fst a" "snd a \<le> snd ra"
    using spans_normalize[OF assms(1,3)] by blast
  obtain rb where rb: "rb \<in> set (normalize_segments segs)" "fst rb \<le> fst b" "snd b \<le> snd rb"
    using spans_normalize[OF assms(2,4)] by blast
  have "ra = rb \<or> snd ra < fst rb \<or> snd rb < fst ra"
    using separated_pairwise[OF separated_normalize ra(1) rb(1)] .
  then have "ra = rb" using ra rb assms(3,4,5,6) by auto
  then show ?thesis using ra rb by blast
qed

text \<open>
  In rejection mode, marking a range bad on a list of bounds gives separated, non-empty
  intervals that cover exactly the old intervals and the new range; any two non-empty
  intervals among them that overlap or touch lie inside one interval of the result.
\<close>

lemma on_remove_merges:
  assumes "edition ed = Rejection" and "bad_segments ed = Some (flatten segs)"
  shows "\<exists>segs'. on_remove ed tmin tmax = (ed\<lparr> bad_segments := Some (flatten segs') \<rparr>, None) \<and>
     separated segs' \<and> (\<forall>r \<in> set segs'. fst r < snd r) \<and>
     (\<forall>i. covers segs' i \<longleftrightarrow> covers segs i \<or> (int tmin \<le> i \<and> i < int tmax)) \<and>
     (\<forall>a \<in> set (segs @ [(int tmin, int tmax)]). \<forall>b \<in> set (segs @ [(int tmin, int tmax)]).
        fst a < snd a \<and> fst b < snd b \<and> fst a \<le> fst b \<and> fst b \<le> snd a \<longrightarrow>
        (\<exists>r \<in> set segs'. fst r \<le> fst a \<and> snd a \<le> snd r \<and> snd b \<le> snd r))"
proof -
  let ?new = "segs @ [(int tmin, int tmax)]"
  let ?res = "normalize_segments ?new"
  have run: "on_remove ed tmin tmax = (ed\<lparr> bad_segments := Some (flatten ?res) \<rparr>, None)"
    using assms by (rule on_remove_rejection)
  have sep: "separated ?res" by (rule separated_normalize)
  have ne: "\<forall>r \<in> set ?res. fst r < snd r" using nonempty_normalize by blast
  have cov: "\<forall>i. covers ?res i \<longleftrightarrow> covers segs i \<or> (int tmin \<le> i \<and> i < int tmax)"
    by (simp add: covers_normalize covers_append)
  have join: "\<forall>a \<in> set ?new. \<forall>b \<in> set ?new.
      fst a < snd a \<and> fst b < snd b \<and> fst a \<le> fst b \<and> fst b \<le> snd a \<longrightarrow>
      (\<exists>r \<in> set ?res. fst r \<le> fst a \<and> snd a \<le> snd r \<and> snd b \<le> snd r)"
    using normalize_joins[of _ ?new] by blast
  show ?thesis using run sep ne cov join by blast
qed

text \<open>A range of zero width is a no-op on a normalised collection.\<close>

lemma on_remove_zero_width:
  assumes "edition ed = Rejection" and "bad_segments ed = Some (flatten segs)"
    and "separated segs" and "\<forall>seg \<in> set segs. fst seg < snd seg"
  shows "on_remove ed t t = (ed, None)"
proof -
  have "filter (\<lambda>seg. fst seg < snd seg) (segs @ [(int t, int t)]) =
        filter (\<lambda>seg. fst seg < snd seg) segs"
    by simp
  then have "normalize_segments (segs @ [(int t, int t)]) = normalize_segments segs"
    by (simp add: normalize_segments_def)
  then have "normalize_segments (segs @ [(int t, int t)]) = segs"
    using normalize_separated_id[OF assms(3,4)] by simp
  then show ?thesis
    using on_remove_rejection[OF assms(1,2), of t t] assms(2) by simp
qed

text \<open>
  C4. Marking a range bad on the initially empty collection should give that range, and
  marking \<open>[10,20)\<close> and then \<open>[15,25)\<close> the single interval \<open>[10,25)\<close>. The editor that
  the viewer builds for a recording without a corrected file has \<^verbatim>\<open>bad_segments = None\<close>,
  not the empty list of the constructor: the first mark-bad gesture ends in
  \<^verbatim>\<open>AttributeError\<close> at \<^verbatim>\<open>self.bad_segments.append\<close> and marks nothing.
\<close>

theorem mark_bad_after_viewer_raises:
  "load_signal (viewer_of ''ECG'' [1, 5, 2, 7]) None = Inr (viewer_of ''ECG'' [1, 5, 2, 7]) \<and>
   bad_segments ed_from_viewer = None \<and>
   on_remove ed_from_viewer 10 20 = (ed_from_viewer, Some AttributeError)"
  by (simp add: load_signal_def viewer_of_def ed_from_viewer_def Editor_init_def on_remove_def)




text \<open>
  C6. After a mark-bad and after an unmark-bad operation on a flat list of an even
  number of bounds, the collection of the editor is sorted by start, and each interval
  ends strictly before the next one starts.
\<close>

theorem rejection_edits_normalized:
  assumes "edition ed = Rejection" and "bad_segments ed = Some bs" and "even (length bs)"
  shows "(\<exists>bs'. on_remove ed tmin tmax = (ed\<lparr> bad_segments := Some bs' \<rparr>, None) \<and>
            normalized_flat bs') \<and>
         (\<exists>bs'. on_add ed tmin tmax = (ed\<lparr> bad_segments := Some bs' \<rparr>, None) \<and>
            normalized_flat bs')"
proof -
  obtain segs where segs: "bs = flatten segs"
    using pairs_even[OF assms(3)] by auto
  have b: "bad_segments ed = Some (flatten segs)" using assms(2) segs by simp
  have "normalized_flat (flatten (normalize_segments (segs @ [(int tmin, int tmax)])))"
    by (simp add: normalized_flat_flatten separated_normalize)
  then have 1: "\<exists>bs'. on_remove ed tmin tmax = (ed\<lparr> bad_segments := Some bs' \<rparr>, None) \<and>
            normalized_flat bs'"
    using on_remove_rejection[OF assms(1) b, of tmin tmax] by blast
  have "normalized_flat
      (flatten (normalize_segments (concat (map (carve (int tmin, int tmax)) segs))))"
    by (simp add: normalized_flat_flatten separated_normalize)
  then have 2: "\<exists>bs'. on_add ed tmin tmax = (ed\<lparr> bad_segments := Some bs' \<rparr>, None) \<and>
            normalized_flat bs'"
    using on_add_rejection[OF assms(1) b, of tmin tmax] by blast
  show ?thesis using 1 2 by blast
qed

theorem rejection_edits_normalized_witness:
  "edition (ed_rejecting [30, 40, 10, 20]) = Rejection \<and>
   even (length [30, 40, 10, 20 :: int]) \<and>
   on_remove (ed_rejecting [30, 40, 10, 20]) 20 25 = (ed_rejecting [10, 25, 30, 40], None) \<and>
   normalized_flat [10, 25, 30, 40] \<and>
   on_add (ed_rejecting [30, 40, 10, 20]) 15 35 = (ed_rejecting [10, 15, 35, 40], None) \<and>
   normalized_flat [10, 15, 35, 40]"
  using rejection_edits_normalized [of "ed_rejecting [30, 40, 10, 20]" "[30, 40, 10, 20]" 20 25]
    rejection_edits_normalized [of "ed_rejecting [30, 40, 10, 20]" "[30, 40, 10, 20]" 15 35]
  by (simp add: ed_rejecting_def on_remove_def on_add_def norm_bad_segments_def
      normalize_segments_def carve_def)


section \<open>Peaks\<close>

lemma sample_le_trans: "sample_le a b \<Longrightarrow> sample_le b c \<Longrightarrow> sample_le a c"
  by (cases a; cases b; cases c) auto

lemma sample_le_total: "a \<noteq> NaN \<Longrightarrow> b \<noteq> NaN \<Longrightarrow> \<not> sample_le a b \<Longrightarrow> sample_le b a"
  by (cases a; cases b) auto

lemma sample_le_refl: "a \<noteq> NaN \<Longrightarrow> sample_le a a"
  by (cases a) auto

lemma sample_less_le: "\<not> sample_le x b \<Longrightarrow> sample_le p b \<Longrightarrow> x \<noteq> NaN \<Longrightarrow> \<not> sample_le x p"
  by (cases x; cases b; cases p) auto

lemma argmax_from_NaN: "argmax_from NaN bi i xs = bi"
  by (cases xs) simp_all

text \<open>
  The scan of \<^verbatim>\<open>np.argmax\<close> over numbers: \<open>pre\<close> is the part of the sequence already
  seen, \<open>best\<close> its first greatest element, at index \<open>bi\<close>.
\<close>

lemma argmax_from_spec:
  assumes "bi < length pre" and "best = pre ! bi" and "\<forall>j<length pre. sample_le (pre ! j) best"
    and "\<forall>j<bi. \<not> sample_le best (pre ! j)" and "NaN \<notin> set pre" and "NaN \<notin> set xs"
  shows "argmax_from best bi (length pre) xs < length (pre @ xs) \<and>
     (\<forall>j<length (pre @ xs).
         sample_le ((pre @ xs) ! j) ((pre @ xs) ! argmax_from best bi (length pre) xs)) \<and>
     (\<forall>j<argmax_from best bi (length pre) xs.
         \<not> sample_le ((pre @ xs) ! argmax_from best bi (length pre) xs) ((pre @ xs) ! j))"
  using assms
proof (induction xs arbitrary: pre best bi)
  case Nil
  then show ?case by simp
next
  case (Cons x xs)
  let ?pre = "pre @ [x]"
  have app: "?pre @ xs = pre @ x # xs" by simp
  have len: "length ?pre = Suc (length pre)" by simp
  have x: "x \<noteq> NaN" using Cons.prems(6) by auto
  have best: "best \<noteq> NaN"
    using Cons.prems(1,2,5) by (metis nth_mem)
  have e: "NaN \<notin> set ?pre" using Cons.prems(5) x by auto
  have f: "NaN \<notin> set xs" using Cons.prems(6) by simp
  show ?case
  proof (cases "sample_le x best")
    case False
    have bx: "sample_le best x" using sample_le_total[OF x best False] .
    have a: "length pre < length ?pre" by simp
    have b: "x = ?pre ! length pre" by simp
    have c: "\<forall>j<length ?pre. sample_le (?pre ! j) x"
    proof (intro allI impI)
      fix j assume "j < length ?pre"
      then consider "j < length pre" | "j = length pre" by fastforce
      then show "sample_le (?pre ! j) x"
      proof cases
        case 1
        then have "sample_le (pre ! j) best" using Cons.prems(3) by blast
        then show ?thesis using 1 bx by (simp add: nth_append sample_le_trans)
      next
        case 2
        then show ?thesis using x by (simp add: sample_le_refl)
      qed
    qed
    have d: "\<forall>j<length pre. \<not> sample_le x (?pre ! j)"
    proof (intro allI impI)
      fix j assume j: "j < length pre"
      then have "sample_le (pre ! j) best" using Cons.prems(3) by blast
      then have "\<not> sample_le x (pre ! j)" using sample_less_le[OF False _ x] by blast
      then show "\<not> sample_le x (?pre ! j)" using j by (simp add: nth_append)
    qed
    have step: "argmax_from best bi (length pre) (x # xs) =
        argmax_from x (length pre) (length ?pre) xs"
      using False best by simp
    from Cons.IH[OF a b c d e f] show ?thesis
      unfolding step app .
  next
    case True
    have a: "bi < length ?pre" using Cons.prems(1) by simp
    have b: "best = ?pre ! bi" using Cons.prems(1,2) by (simp add: nth_append)
    have c: "\<forall>j<length ?pre. sample_le (?pre ! j) best"
      using Cons.prems(3) True by (auto simp: nth_append less_Suc_eq)
    have d: "\<forall>j<bi. \<not> sample_le best (?pre ! j)"
      using Cons.prems(1,4) by (auto simp: nth_append)
    have step: "argmax_from best bi (length pre) (x # xs) =
        argmax_from best bi (length ?pre) xs"
      using True best by simp
    from Cons.IH[OF a b c d e f] show ?thesis
      unfolding step app .
  qed
qed

lemma argmax_spec:
  assumes "xs \<noteq> []" and "NaN \<notin> set xs"
  shows "\<exists>k. argmax xs = Some k \<and> k < length xs \<and> (\<forall>j<length xs. sample_le (xs ! j) (xs ! k)) \<and>
     (\<forall>j<k. \<not> sample_le (xs ! k) (xs ! j))"
proof -
  obtain x rest where xs: "xs = x # rest" using assms(1) by (cases xs) auto
  have x: "x \<noteq> NaN" and rest: "NaN \<notin> set rest" using assms(2) xs by auto
  have "argmax_from x 0 (length [x]) rest < length ([x] @ rest) \<and>
     (\<forall>j<length ([x] @ rest).
         sample_le (([x] @ rest) ! j) (([x] @ rest) ! argmax_from x 0 (length [x]) rest)) \<and>
     (\<forall>j<argmax_from x 0 (length [x]) rest.
         \<not> sample_le (([x] @ rest) ! argmax_from x 0 (length [x]) rest) (([x] @ rest) ! j))"
    using x rest by (intro argmax_from_spec) (simp_all add: sample_le_refl)
  then show ?thesis using xs by (simp add: argmax_def)
qed

text \<open>With a NaN in the sequence, the result is the index of the first NaN.\<close>

lemma argmax_from_first_NaN:
  "best \<noteq> NaN \<Longrightarrow> NaN \<in> set xs \<Longrightarrow>
   \<exists>m. argmax_from best bi i xs = i + m \<and> m < length xs \<and> xs ! m = NaN \<and>
       (\<forall>j<m. xs ! j \<noteq> NaN)"
proof (induction xs arbitrary: best bi i)
  case Nil
  then show ?case by simp
next
  case (Cons x xs)
  show ?case
  proof (cases "x = NaN")
    case True
    then have "argmax_from best bi i (x # xs) = i + 0"
      using Cons.prems(1) by (simp add: argmax_from_NaN)
    then show ?thesis using True by (intro exI[of _ 0]) simp
  next
    case False
    then have mem: "NaN \<in> set xs" using Cons.prems(2) by auto
    obtain b' bi' where step: "argmax_from best bi i (x # xs) = argmax_from b' bi' (Suc i) xs"
        and b': "b' \<noteq> NaN"
    proof (cases "sample_le x best")
      case True
      then show ?thesis using that[of best bi] Cons.prems(1) by simp
    next
      case le: False
      then show ?thesis using that[of x i] Cons.prems(1) False by simp
    qed
    obtain m where m: "argmax_from b' bi' (Suc i) xs = Suc i + m" "m < length xs"
        "xs ! m = NaN" "\<forall>j<m. xs ! j \<noteq> NaN"
      using Cons.IH[OF b' mem, of bi' "Suc i"] by blast
    have "\<forall>j<Suc m. (x # xs) ! j \<noteq> NaN"
      using m(4) False by (auto simp: nth_Cons split: nat.splits)
    then show ?thesis
      using step m by (intro exI[of _ "Suc m"]) simp
  qed
qed

lemma length_slice: "tmax \<le> length xs \<Longrightarrow> length (slice xs tmin tmax) = tmax - tmin"
  by (simp add: slice_def)

lemma nth_slice: "tmax \<le> length xs \<Longrightarrow> j < tmax - tmin \<Longrightarrow> slice xs tmin tmax ! j = xs ! (tmin + j)"
  by (simp add: slice_def)

text \<open>
  C7. In correction mode, for a non-empty range \<open>[tmin,tmax)\<close> inside the signal whose
  samples are all numbers, the add gesture sets the peaks vector to true at
  \<open>tmin + argmax(signal[tmin:tmax])\<close>, which lies in the range and is the first index there
  with the greatest sample, and every other entry of the peaks vector is unchanged.
  With a NaN in the range \<^verbatim>\<open>np.argmax\<close> returns the index of the first NaN instead, which
  is not the sample of greatest amplitude.
\<close>

theorem on_add_strongest_peak:
  assumes "edition ed = Correction" and "signal ed = Some sig" and "peaks ed = Some ps"
    and "length ps = length sig" and "tmin < tmax" and "tmax \<le> length sig"
    and "NaN \<notin> set (slice sig tmin tmax)"
  shows "\<exists>k. argmax (slice sig tmin tmax) = Some k \<and>
     on_add ed tmin tmax = (ed\<lparr> peaks := Some (ps[tmin + k := True]) \<rparr>, None) \<and>
     tmin + k < tmax \<and>
     (\<forall>j. tmin \<le> j \<and> j < tmax \<longrightarrow> sample_le (sig ! j) (sig ! (tmin + k))) \<and>
     (\<forall>j. tmin \<le> j \<and> j < tmin + k \<longrightarrow> \<not> sample_le (sig ! (tmin + k)) (sig ! j)) \<and>
     strongest_in sig tmin tmax (tmin + k) \<and>
     (ps[tmin + k := True]) ! (tmin + k) = True \<and>
     (\<forall>j. j \<noteq> tmin + k \<longrightarrow> (ps[tmin + k := True]) ! j = ps ! j)"
proof -
  let ?s = "slice sig tmin tmax"
  have len: "length ?s = tmax - tmin" using assms(6) by (rule length_slice)
  then have "?s \<noteq> []" using assms(5) by auto
  then obtain k where k: "argmax ?s = Some k" "k < length ?s"
      "\<forall>j<length ?s. sample_le (?s ! j) (?s ! k)" "\<forall>j<k. \<not> sample_le (?s ! k) (?s ! j)"
    using argmax_spec[OF _ assms(7)] by blast
  have kt: "tmin + k < tmax" using k(2) len by simp
  have nth: "\<And>j. j < tmax - tmin \<Longrightarrow> ?s ! j = sig ! (tmin + j)"
    using assms(6) by (simp add: nth_slice)
  have sk: "?s ! k = sig ! (tmin + k)" using nth[of k] k(2) len by simp
  have run: "on_add ed tmin tmax = (ed\<lparr> peaks := Some (ps[tmin + k := True]) \<rparr>, None)"
    using assms(1-6) k(1) kt by (simp add: on_add_def)
  have mx: "\<forall>j. tmin \<le> j \<and> j < tmax \<longrightarrow> sample_le (sig ! j) (sig ! (tmin + k))"
  proof (intro allI impI)
    fix j assume j: "tmin \<le> j \<and> j < tmax"
    then have lt: "j - tmin < tmax - tmin" by arith
    then have "sample_le (?s ! (j - tmin)) (?s ! k)" using k(3) len by simp
    moreover have "?s ! (j - tmin) = sig ! j" using nth[OF lt] j by simp
    ultimately show "sample_le (sig ! j) (sig ! (tmin + k))" using sk by simp
  qed
  have first: "\<forall>j. tmin \<le> j \<and> j < tmin + k \<longrightarrow> \<not> sample_le (sig ! (tmin + k)) (sig ! j)"
  proof (intro allI impI)
    fix j assume j: "tmin \<le> j \<and> j < tmin + k"
    then have ltk: "j - tmin < k" by arith
    then have lt: "j - tmin < tmax - tmin" using k(2) len by simp
    have "\<not> sample_le (?s ! k) (?s ! (j - tmin))" using k(4) ltk by blast
    moreover have "?s ! (j - tmin) = sig ! j" using nth[OF lt] j by simp
    ultimately show "\<not> sample_le (sig ! (tmin + k)) (sig ! j)" using sk by simp
  qed
  have "list_all (\<lambda>x. sample_le x (?s ! k)) ?s"
    using k(3) by (simp add: list_all_length)
  then have strong: "strongest_in sig tmin tmax (tmin + k)"
    using kt assms(6) sk by (simp add: strongest_in_def)
  have "tmin + k < length ps" using kt assms(4,6) by simp
  then show ?thesis using k(1) run kt mx first strong by simp
qed

theorem on_add_strongest_peak_witness:
  "edition ed_ppg = Correction \<and> signal ed_ppg = Some [Num 1, Num 5, Num 2, Num 7] \<and>
   peaks ed_ppg = Some [False, False, False, True] \<and> (0::nat) < 3 \<and>
   NaN \<notin> set (slice [Num 1, Num 5, Num 2, Num (7::int)] 0 3) \<and>
   on_add ed_ppg 0 3 = (ed_ppg\<lparr> peaks := Some [False, True, False, True] \<rparr>, None) \<and>
   strongest_in [Num 1, Num 5, Num 2, Num (7::int)] 0 3 1"
  using on_add_strongest_peak
    [of ed_ppg "[Num 1, Num 5, Num 2, Num 7]" "[False, False, False, True]" 0 3]
  by (simp add: ed_ppg_def on_add_def slice_def argmax_def strongest_in_def)

theorem on_add_nan_counterexample:
  "signal ed_nan = Some [Num 1, NaN, Num 5] \<and>
   on_add ed_nan 0 3 = (ed_nan\<lparr> peaks := Some [False, True, False] \<rparr>, None) \<and>
   \<not> strongest_in [Num 1, NaN, Num (5::int)] 0 3 1"
  by (simp add: ed_nan_def on_add_def slice_def argmax_def strongest_in_def)

text \<open>
  C8. In correction mode, the add gesture on an empty range \<open>[t,t)\<close> ends in the
  \<^verbatim>\<open>ValueError\<close> of \<^verbatim>\<open>np.argmax\<close> on an empty sequence; the exception reaches the caller
  and the editor (peaks and bad segments) is as before.
\<close>

theorem on_add_empty_range:
  assumes "edition ed = Correction" and "signal ed = Some sig"
  shows "on_add ed t t = (ed, Some ValueError)"
  using assms by (simp add: on_add_def slice_def argmax_def)

theorem on_add_empty_range_witness:
  "edition ed_ppg = Correction \<and> signal ed_ppg = Some [Num 1, Num 5, Num 2, Num 7] \<and>
   on_add ed_ppg 2 2 = (ed_ppg, Some ValueError)"
  using on_add_empty_range [of ed_ppg "[Num 1, Num 5, Num 2, Num 7]" 2]
  by (simp add: ed_ppg_def)

lemma clear_slice_restore:
  assumes "i < length ps" and "\<not> ps ! i"
  shows "clear_slice (ps[i := True]) i (i + 1) = ps"
  using assms by (auto simp: clear_slice_def nth_list_update intro!: nth_equalityI)

text \<open>
  C9. The editor inserts a peak at index \<open>i\<close> by the add gesture on \<open>[i,i+1)\<close> and
  removes peaks by the remove gesture. When the entry \<open>i\<close> of the peaks vector is false
  before the insertion, inserting at \<open>i\<close> and then removing over \<open>[i,i+1)\<close> gives back
  the editor as it was. When the entry is already true, the removal clears it, and the
  peaks vector differs from the one before the insertion.
\<close>

theorem insert_then_remove_restores:
  assumes "edition ed = Correction" and "signal ed = Some sig" and "peaks ed = Some ps"
    and "length ps = length sig" and "i < length sig" and "\<not> ps ! i"
  shows "on_add ed i (i + 1) = (ed\<lparr> peaks := Some (ps[i := True]) \<rparr>, None) \<and>
     on_remove (fst (on_add ed i (i + 1))) i (i + 1) = (ed, None)"
proof -
  have "slice sig i (i + 1) = [sig ! i]"
    using assms(5) by (simp add: slice_def take_Suc_conv_app_nth hd_drop_conv_nth take_Suc)
  then have add: "on_add ed i (i + 1) = (ed\<lparr> peaks := Some (ps[i := True]) \<rparr>, None)"
    using assms by (simp add: on_add_def argmax_def)
  have "clear_slice (ps[i := True]) i (i + 1) = ps"
    using assms by (intro clear_slice_restore) simp_all
  then have "on_remove (ed\<lparr> peaks := Some (ps[i := True]) \<rparr>) i (i + 1) = (ed, None)"
    using assms(1,3) by (simp add: on_remove_def)
  then show ?thesis using add by simp
qed

theorem insert_then_remove_restores_witness:
  "edition ed_ppg = Correction \<and> \<not> [False, False, False, True] ! 2 \<and>
   on_remove (fst (on_add ed_ppg 2 (2 + 1))) 2 (2 + 1) = (ed_ppg, None)"
proof -
  have a: "edition ed_ppg = Correction" "signal ed_ppg = Some [Num 1, Num 5, Num 2, Num 7]"
      "peaks ed_ppg = Some [False, False, False, True]"
    by (simp_all add: ed_ppg_def)
  have b: "length [False, False, False, True] = length [Num 1, Num 5, Num 2, Num (7::int)]"
      "(2::nat) < length [Num 1, Num 5, Num 2, Num (7::int)]"
      "\<not> [False, False, False, True] ! 2"
    by simp_all
  show ?thesis
    using insert_then_remove_restores [OF a b] a(1) b(3) by blast
qed

theorem insert_then_remove_counterexample:
  "peaks (fst (on_remove (fst (on_add ed_one_peak 0 1)) 0 1)) \<noteq> peaks ed_one_peak"
  by (simp add: ed_one_peak_def on_add_def on_remove_def slice_def argmax_def clear_slice_def)

text \<open>
  C10. Without a viewer the constructor leaves the bad segments of the editor at the
  empty list, whatever the \<^verbatim>\<open>bad_segments\<close> argument is; with a viewer they are the
  attribute of the viewer, which is \<^verbatim>\<open>None\<close> after a load that found no file.
\<close>

theorem Editor_init_bad_segments:
  "bad_segments (Editor_init sig t None cp bs) = Some [] \<and>
   bad_segments (Editor_init sig t (Some v) cp bs) = v_bad_segments v \<and>
   (\<exists>v'. load_signal v None = Inr v' \<and> bad_segments (Editor_init sig t (Some v') cp bs) = None)"
  by (simp add: Editor_init_def load_signal_def)

end
